theory Spec2Isabelle
  imports Main
begin

section \<open>The event emitter of grainjs (lib/emit.ts) and the bind helpers\<close>

text \<open>
  The emitter keeps its listeners in a circular doubly-linked list whose sentinel is the
  emitter object itself. The objects live in a heap that is modelled field by field:
  every field of the classes \<^verbatim>\<open>LLink\<close>, \<^verbatim>\<open>Emitter\<close> and \<^verbatim>\<open>Listener\<close> is a function
  from object references to the field's value. \<^verbatim>\<open>null\<close> is \<open>None\<close>.

  Callbacks are code of the caller. The two callback types of the source,
  \<^verbatim>\<open>ListenerCB\<close> and \<^verbatim>\<open>ChangeCB\<close>, are the type parameters \<open>'cb\<close> and \<open>'ccb\<close>; what a
  callback does when it is called is given by an interpretation that the operations take
  as an argument. A callback may change the whole world, the listener list included, and
  it may throw; it is a total function, so a callback that never returns is not modelled.
  The two loops of the source, in \<^verbatim>\<open>callAll\<close> and in \<^verbatim>\<open>_disposeList\<close>, may run for ever:
  they return \<open>None\<close> then.
\<close>

subsection \<open>Values, errors and the heap\<close>

type_synonym ref = nat

datatype val = Undefined | Null | Bool bool | Num int | Str string | Obj ref

datatype error = TypeError | Thrown val

record ('cb, 'ccb, 'u) world =
  nxt :: "ref \<Rightarrow> ref option"
  prv :: "ref \<Rightarrow> ref option"
  l_emitter :: "ref \<Rightarrow> ref"
  l_callback :: "ref \<Rightarrow> 'cb option"
  l_context :: "ref \<Rightarrow> val"
  changeCB :: "ref \<Rightarrow> 'ccb option"
  changeCBContext :: "ref \<Rightarrow> val"
  fresh :: ref
  user :: 'u

text \<open>
  \<open>nxt\<close> and \<open>prv\<close> are \<^verbatim>\<open>LLink._next\<close> and \<^verbatim>\<open>LLink._prev\<close>; \<open>l_emitter\<close>, \<open>l_callback\<close>
  and \<open>l_context\<close> are the three fields of a \<^verbatim>\<open>Listener\<close> (an object that is no listener
  has no callback); \<open>changeCB\<close> and \<open>changeCBContext\<close> are the two fields of an
  \<^verbatim>\<open>Emitter\<close>, where \<open>None\<close> stands for the function \<^verbatim>\<open>_noop\<close>. \<open>fresh\<close> is the reference
  that the next \<^verbatim>\<open>new\<close> returns, and \<open>user\<close> is the state of the caller's program.

  An operation that can throw returns \<open>Inl (e, w)\<close>, the error together with the world at
  the moment of the throw, or \<open>Inr\<close> of its normal result.
\<close>

type_synonym ('cb, 'ccb, 'u) outcome =
  "(error \<times> ('cb, 'ccb, 'u) world) + ('cb, 'ccb, 'u) world"

type_synonym ('cb, 'ccb, 'u) listenerCB =
  "'cb \<Rightarrow> val \<Rightarrow> val list \<Rightarrow> ('cb, 'ccb, 'u) world \<Rightarrow> ('cb, 'ccb, 'u) outcome"

type_synonym ('cb, 'ccb, 'u) changeCB =
  "'ccb \<Rightarrow> val \<Rightarrow> bool \<Rightarrow> ('cb, 'ccb, 'u) world \<Rightarrow> ('cb, 'ccb, 'u) outcome"

definition empty_world :: "'u \<Rightarrow> ('cb, 'ccb, 'u) world" where
  "empty_world u =
     \<lparr>nxt = (\<lambda>_. None), prv = (\<lambda>_. None), l_emitter = (\<lambda>_. 0), l_callback = (\<lambda>_. None),
      l_context = (\<lambda>_. Undefined), changeCB = (\<lambda>_. None), changeCBContext = (\<lambda>_. Undefined),
      fresh = 0, user = u\<rparr>"

subsection \<open>class LLink\<close>

text \<open>The constructor: a new object whose two links point to itself.\<close>

definition LLink_new :: "('cb, 'ccb, 'u) world \<Rightarrow> ref \<times> ('cb, 'ccb, 'u) world" where
  "LLink_new w =
     (let r = fresh w in
      (r, w\<lparr>nxt := (nxt w)(r := Some r), prv := (prv w)(r := Some r), fresh := Suc r\<rparr>))"

definition isDisposed :: "('cb, 'ccb, 'u) world \<Rightarrow> ref \<Rightarrow> bool" where
  "isDisposed w r = (nxt w r = None)"

text \<open>
  \<^verbatim>\<open>_insertBefore(next, node)\<close>. The non-null assertion on \<^verbatim>\<open>next._prev\<close> is erased
  by the compiler; when the link is null the first assignment dereferences null.
\<close>

definition insertBefore ::
  "ref \<Rightarrow> ref \<Rightarrow> ('cb, 'ccb, 'u) world \<Rightarrow> ('cb, 'ccb, 'u) outcome" where
  "insertBefore next node w =
     (case prv w next of
        None \<Rightarrow> Inl (TypeError, w)
      | Some last' \<Rightarrow>
          (let w1 = w\<lparr>nxt := (nxt w)(last' := Some node)\<rparr>;
               w2 = w1\<lparr>prv := (prv w1)(next := Some node)\<rparr>;
               w3 = w2\<lparr>prv := (prv w2)(node := Some last')\<rparr>;
               w4 = w3\<lparr>nxt := (nxt w3)(node := Some next)\<rparr>
           in Inr w4))"

text \<open>\<^verbatim>\<open>_removeNode(node)\<close>.\<close>

definition removeNode ::
  "ref \<Rightarrow> ('cb, 'ccb, 'u) world \<Rightarrow> ('cb, 'ccb, 'u) outcome" where
  "removeNode node w =
     (case prv w node of
        None \<Rightarrow> Inr (w\<lparr>nxt := (nxt w)(node := None), prv := (prv w)(node := None)\<rparr>)
      | Some p \<Rightarrow>
          (let w1 = w\<lparr>nxt := (nxt w)(p := nxt w node)\<rparr> in
           case nxt w1 node of
             None \<Rightarrow> Inl (TypeError, w1)
           | Some n \<Rightarrow>
               (let w2 = w1\<lparr>prv := (prv w1)(n := prv w1 node)\<rparr>
                in Inr (w2\<lparr>nxt := (nxt w2)(node := None), prv := (prv w2)(node := None)\<rparr>))))"

text \<open>
  \<^verbatim>\<open>_disposeList()\<close>: the loop follows the next links and nulls both links of every
  object it leaves, until it reads a null link. On a heap whose links never end it
  does not return.
\<close>

partial_function (option) disposeList_loop ::
  "ref \<Rightarrow> ref option \<Rightarrow> ('cb, 'ccb, 'u) world \<Rightarrow> ('cb, 'ccb, 'u) world option" where
  "disposeList_loop node next w =
     (case next of
        None \<Rightarrow> Some w
      | Some n \<Rightarrow>
          (let w1 = w\<lparr>nxt := (nxt w)(node := None), prv := (prv w)(node := None)\<rparr>
           in disposeList_loop n (nxt w1 n) w1))"

definition disposeList :: "ref \<Rightarrow> ('cb, 'ccb, 'u) world \<Rightarrow> ('cb, 'ccb, 'u) world option" where
  "disposeList this w = disposeList_loop this (nxt w this) w"

subsection \<open>class Emitter\<close>

definition Emitter_new :: "('cb, 'ccb, 'u) world \<Rightarrow> ref \<times> ('cb, 'ccb, 'u) world" where
  "Emitter_new w =
     (case LLink_new w of
        (r, w1) \<Rightarrow>
          (r, w1\<lparr>changeCB := (changeCB w1)(r := None),
                 changeCBContext := (changeCBContext w1)(r := Undefined)\<rparr>))"

definition hasListeners :: "('cb, 'ccb, 'u) world \<Rightarrow> ref \<Rightarrow> bool" where
  "hasListeners w this = (nxt w this \<noteq> Some this)"

definition setChangeCB ::
  "ref \<Rightarrow> 'ccb option \<Rightarrow> val \<Rightarrow> ('cb, 'ccb, 'u) world \<Rightarrow> ('cb, 'ccb, 'u) world" where
  "setChangeCB this cb optContext w =
     w\<lparr>changeCB := (changeCB w)(this := cb),
       changeCBContext := (changeCBContext w)(this := optContext)\<rparr>"

definition triggerChangeCB ::
  "('cb, 'ccb, 'u) changeCB \<Rightarrow> ref \<Rightarrow> ('cb, 'ccb, 'u) world \<Rightarrow> ('cb, 'ccb, 'u) outcome" where
  "triggerChangeCB callC this w =
     (case changeCB w this of
        None \<Rightarrow> Inr w
      | Some c \<Rightarrow> callC c (changeCBContext w this) (hasListeners w this) w)"

definition Emitter_dispose ::
  "ref \<Rightarrow> ('cb, 'ccb, 'u) world \<Rightarrow> ('cb, 'ccb, 'u) world option" where
  "Emitter_dispose this w =
     (case disposeList this w of
        None \<Rightarrow> None
      | Some w1 \<Rightarrow>
          Some (w1\<lparr>changeCB := (changeCB w1)(this := None),
                   changeCBContext := (changeCBContext w1)(this := Undefined)\<rparr>))"

subsection \<open>class Listener\<close>

text \<open>
  \<^verbatim>\<open>Listener.callAll(begin, end, args)\<close>. \<open>begin\<close> can be null at run time: the loop
  reads it from \<^verbatim>\<open>lis._next\<close>, whose non-null assertion is erased. Calling the
  callback of null, or of an object that has no callback, is a TypeError. An error thrown
  by a callback leaves the loop. The loop does not return when it never reaches \<open>end\<close>.
\<close>

partial_function (option) callAll ::
  "('cb, 'ccb, 'u) listenerCB \<Rightarrow> ref option \<Rightarrow> ref \<Rightarrow> val list \<Rightarrow> ('cb, 'ccb, 'u) world \<Rightarrow>
     ('cb, 'ccb, 'u) outcome option" where
  "callAll callL begin end args w =
     (if begin = Some end then Some (Inr w)
      else
        (case begin of
           None \<Rightarrow> Some (Inl (TypeError, w))
         | Some lis \<Rightarrow>
             (case l_callback w lis of
                None \<Rightarrow> Some (Inl (TypeError, w))
              | Some cb \<Rightarrow>
                  (case callL cb (l_context w lis) args w of
                     Inl ew \<Rightarrow> Some (Inl ew)
                   | Inr w1 \<Rightarrow> callAll callL (nxt w1 lis) end args w1))))"

text \<open>The constructor of \<^verbatim>\<open>Listener\<close>, which is all that \<^verbatim>\<open>addListener\<close> calls.\<close>

definition Listener_new ::
  "('cb, 'ccb, 'u) changeCB \<Rightarrow> ref \<Rightarrow> 'cb \<Rightarrow> val \<Rightarrow> ('cb, 'ccb, 'u) world \<Rightarrow>
     (error \<times> ('cb, 'ccb, 'u) world) + (ref \<times> ('cb, 'ccb, 'u) world)" where
  "Listener_new callC emitter callback context w =
     (case LLink_new w of
        (this, w1) \<Rightarrow>
          (let w2 = w1\<lparr>l_emitter := (l_emitter w1)(this := emitter),
                       l_callback := (l_callback w1)(this := Some callback),
                       l_context := (l_context w1)(this := context)\<rparr>
           in case insertBefore emitter this w2 of
                Inl ew \<Rightarrow> Inl ew
              | Inr w3 \<Rightarrow>
                  (case triggerChangeCB callC emitter w3 of
                     Inl ew \<Rightarrow> Inl ew
                   | Inr w4 \<Rightarrow> Inr (this, w4))))"

definition Listener_dispose ::
  "('cb, 'ccb, 'u) changeCB \<Rightarrow> ref \<Rightarrow> ('cb, 'ccb, 'u) world \<Rightarrow> ('cb, 'ccb, 'u) outcome" where
  "Listener_dispose callC this w =
     (if isDisposed w this then Inr w
      else
        (case removeNode this w of
           Inl ew \<Rightarrow> Inl ew
         | Inr w1 \<Rightarrow> triggerChangeCB callC (l_emitter w1 this) w1))"

definition addListener ::
  "('cb, 'ccb, 'u) changeCB \<Rightarrow> ref \<Rightarrow> 'cb \<Rightarrow> val \<Rightarrow> ('cb, 'ccb, 'u) world \<Rightarrow>
     (error \<times> ('cb, 'ccb, 'u) world) + (ref \<times> ('cb, 'ccb, 'u) world)" where
  "addListener callC this callback optContext w = Listener_new callC this callback optContext w"

definition emit ::
  "('cb, 'ccb, 'u) listenerCB \<Rightarrow> ref \<Rightarrow> val list \<Rightarrow> ('cb, 'ccb, 'u) world \<Rightarrow>
     ('cb, 'ccb, 'u) outcome option" where
  "emit callL this args w = callAll callL (nxt w this) this args w"

subsection \<open>The bind helpers\<close>




section \<open>The listener list as a list of references\<close>

text \<open>
  \<open>seg w p xs q\<close>: in the world \<open>w\<close> the next links lead from \<open>p\<close> through the objects
  \<open>xs\<close> to \<open>q\<close>, and the prev links lead back. \<open>linked w e ls\<close>: the circular list of
  the emitter \<open>e\<close> holds, after the sentinel \<open>e\<close> itself, exactly the listeners \<open>ls\<close> in
  this order.
\<close>

fun seg :: "('cb, 'ccb, 'u) world \<Rightarrow> ref \<Rightarrow> ref list \<Rightarrow> ref \<Rightarrow> bool" where
  "seg w p [] q = (nxt w p = Some q \<and> prv w q = Some p)"
| "seg w p (x # xs) q = (nxt w p = Some x \<and> prv w x = Some p \<and> seg w x xs q)"

definition linked :: "('cb, 'ccb, 'u) world \<Rightarrow> ref \<Rightarrow> ref list \<Rightarrow> bool" where
  "linked w e ls = (distinct (e # ls) \<and> seg w e ls e)"

text \<open>
  \<open>path\<close> is \<open>seg\<close> without the prev links. \<open>sever S w\<close> is the world \<open>w\<close> with both
  links of every object of \<open>S\<close> set to null.
\<close>

fun path :: "('cb, 'ccb, 'u) world \<Rightarrow> ref \<Rightarrow> ref list \<Rightarrow> ref \<Rightarrow> bool" where
  "path w p [] q = (nxt w p = Some q)"
| "path w p (x # xs) q = (nxt w p = Some x \<and> path w x xs q)"

definition sever :: "ref set \<Rightarrow> ('cb, 'ccb, 'u) world \<Rightarrow> ('cb, 'ccb, 'u) world" where
  "sever S w =
     w\<lparr>nxt := (\<lambda>r. if r \<in> S then None else nxt w r),
       prv := (\<lambda>r. if r \<in> S then None else prv w r)\<rparr>"

text \<open>
  \<open>unmodified S w1 w2\<close>: every field of every object of \<open>S\<close> has in \<open>w2\<close> the value it
  has in \<open>w1\<close>, and no object has been taken back from the heap.
\<close>

definition unmodified ::
  "ref set \<Rightarrow> ('cb, 'ccb, 'u) world \<Rightarrow> ('cb, 'ccb, 'u) world \<Rightarrow> bool" where
  "unmodified S w1 w2 =
     ((\<forall>r\<in>S. nxt w2 r = nxt w1 r \<and> prv w2 r = prv w1 r \<and>
         l_emitter w2 r = l_emitter w1 r \<and> l_callback w2 r = l_callback w1 r \<and>
         l_context w2 r = l_context w1 r \<and> changeCB w2 r = changeCB w1 r \<and>
         changeCBContext w2 r = changeCBContext w1 r) \<and>
      fresh w1 \<le> fresh w2)"

text \<open>
  A listener callback \<open>keeps\<close> the objects \<open>S\<close> when, called with \<open>args\<close> in any world,
  it leaves them unmodified if it returns; it is \<open>quiet\<close> when moreover it always
  returns. The same for a change callback, which is called with a boolean.
\<close>

definition keeps ::
  "('cb, 'ccb, 'u) listenerCB \<Rightarrow> val list \<Rightarrow> ref set \<Rightarrow> 'cb \<Rightarrow> val \<Rightarrow> bool" where
  "keeps callL args S c cx = (\<forall>w1 w2. callL c cx args w1 = Inr w2 \<longrightarrow> unmodified S w1 w2)"

definition quiet ::
  "('cb, 'ccb, 'u) listenerCB \<Rightarrow> val list \<Rightarrow> ref set \<Rightarrow> 'cb \<Rightarrow> val \<Rightarrow> bool" where
  "quiet callL args S c cx = (\<forall>w1. \<exists>w2. callL c cx args w1 = Inr w2 \<and> unmodified S w1 w2)"

definition quietC ::
  "('cb, 'ccb, 'u) changeCB \<Rightarrow> ref set \<Rightarrow> 'ccb \<Rightarrow> val \<Rightarrow> bool" where
  "quietC callC S c cx = (\<forall>b w1. \<exists>w2. callC c cx b w1 = Inr w2 \<and> unmodified S w1 w2)"

text \<open>
  \<open>call_each callL args ls w\<close> calls the callbacks of the listeners \<open>ls\<close>, one after the
  other in the order of the list, each once and each with \<open>args\<close> and its own context;
  it stops at the first callback that throws.
\<close>

fun call_each ::
  "('cb, 'ccb, 'u) listenerCB \<Rightarrow> val list \<Rightarrow> ref list \<Rightarrow> ('cb, 'ccb, 'u) world \<Rightarrow>
     ('cb, 'ccb, 'u) outcome" where
  "call_each callL args [] w = Inr w"
| "call_each callL args (l # ls) w =
     (case l_callback w l of
        None \<Rightarrow> Inl (TypeError, w)
      | Some c \<Rightarrow>
          (case callL c (l_context w l) args w of
             Inl ew \<Rightarrow> Inl ew
           | Inr w1 \<Rightarrow> call_each callL args ls w1))"

section \<open>Callbacks for concrete scenarios\<close>

text \<open>
  The callbacks of the scenarios: a recorder, which appends its tag and the arguments it
  received to the caller's log; a callback that disposes a given listener; a callback that
  adds a listener with a given callback to a given emitter; and one callback followed by
  another. A change callback is a recorder. \<open>scene cs\<close> is the world after
  \<^verbatim>\<open>new Emitter()\<close> and one \<^verbatim>\<open>addListener\<close> for each callback of \<open>cs\<close>: the emitter is the
  object 0 and the listeners are 1, 2, ...
\<close>

datatype event = Called nat "val list" | Changed nat bool

datatype cb = Record nat | DisposeListener ref | AddListener ref cb | Seq cb cb

definition run_change :: "(cb, nat, event list) changeCB" where
  "run_change c cx b w = Inr (w\<lparr>user := user w @ [Changed c b]\<rparr>)"

fun run_cb :: "(cb, nat, event list) listenerCB" where
  "run_cb (Record n) cx args w = Inr (w\<lparr>user := user w @ [Called n args]\<rparr>)"
| "run_cb (DisposeListener l) cx args w = Listener_dispose run_change l w"
| "run_cb (AddListener e c) cx args w =
     (case addListener run_change e c Undefined w of
        Inl ew \<Rightarrow> Inl ew
      | Inr (l, w1) \<Rightarrow> Inr w1)"
| "run_cb (Seq a b) cx args w =
     (case run_cb a cx args w of
        Inl ew \<Rightarrow> Inl ew
      | Inr w1 \<Rightarrow> run_cb b cx args w1)"

fun add_all :: "ref \<Rightarrow> cb list \<Rightarrow> (cb, nat, event list) world \<Rightarrow> (cb, nat, event list) world" where
  "add_all e [] w = w"
| "add_all e (c # cs) w =
     (case addListener run_change e c Undefined w of
        Inl (err, w1) \<Rightarrow> w1
      | Inr (l, w1) \<Rightarrow> add_all e cs w1)"

definition scene :: "cb list \<Rightarrow> (cb, nat, event list) world" where
  "scene cs = (case Emitter_new (empty_world []) of (e, w) \<Rightarrow> add_all e cs w)"

text \<open>\<open>disposed_scene cs\<close> is the world of \<open>scene cs\<close> after \<^verbatim>\<open>dispose()\<close> of its emitter.\<close>

definition disposed_scene :: "cb list \<Rightarrow> (cb, nat, event list) world" where
  "disposed_scene cs =
     (case Emitter_dispose 0 (scene cs) of None \<Rightarrow> scene cs | Some w \<Rightarrow> w)"



section \<open>Sequences of operations on one emitter\<close>






section \<open>Proofs\<close>

subsection \<open>Lists in the heap\<close>

lemma seg_frame:
  "seg w p xs q \<Longrightarrow>
   (\<forall>r\<in>set (p # xs @ [q]). nxt w' r = nxt w r \<and> prv w' r = prv w r) \<Longrightarrow>
   seg w' p xs q"
  by (induction xs arbitrary: p) auto

lemma seg_append:
  "seg w p (xs @ y # ys) q = (seg w p xs y \<and> seg w y ys q)"
  by (induction xs arbitrary: p) auto

lemma seg_unique:
  "seg w p xs q \<Longrightarrow> seg w p ys q \<Longrightarrow> q \<notin> set xs \<Longrightarrow> q \<notin> set ys \<Longrightarrow> xs = ys"
proof (induction xs arbitrary: p ys)
  case Nil
  then show ?case by (cases ys) auto
next
  case (Cons x xs)
  then show ?case by (cases ys) auto
qed

lemma linked_unique: "linked w e ls \<Longrightarrow> linked w e ls' \<Longrightarrow> ls = ls'"
  unfolding linked_def by (auto intro: seg_unique)

lemma unmodified_refl: "unmodified S w w"
  by (simp add: unmodified_def)

lemma unmodified_trans:
  "unmodified S w1 w2 \<Longrightarrow> unmodified S w2 w3 \<Longrightarrow> unmodified S w1 w3"
  by (auto simp: unmodified_def)

lemma unmodified_mono: "unmodified S w1 w2 \<Longrightarrow> T \<subseteq> S \<Longrightarrow> unmodified T w1 w2"
  by (auto simp: unmodified_def)

lemma seg_unmodified:
  "seg w p xs q \<Longrightarrow> unmodified S w w' \<Longrightarrow> set (p # xs @ [q]) \<subseteq> S \<Longrightarrow> seg w' p xs q"
  by (rule seg_frame) (auto simp: unmodified_def)

lemma linked_unmodified:
  "linked w e ls \<Longrightarrow> unmodified S w w' \<Longrightarrow> set (e # ls) \<subseteq> S \<Longrightarrow> linked w' e ls"
  unfolding linked_def using seg_unmodified [of w e ls e S w'] by auto

lemma call_each_append:
  "call_each callL args (xs @ ys) w =
     (case call_each callL args xs w of Inl ew \<Rightarrow> Inl ew | Inr w' \<Rightarrow> call_each callL args ys w')"
  by (induction xs arbitrary: w) (auto split: option.splits sum.splits)

text \<open>
  The loop of \<open>callAll\<close> over a stretch \<open>xs\<close> of the list, when every callback of the
  stretch preserves an invariant \<open>R\<close> and the links of the stretch: it calls the callbacks
  of \<open>xs\<close> in order and goes on from the object after the stretch.
\<close>

lemma callAll_prefix:
  assumes step: "\<And>x w1 w2 c. x \<in> set xs \<Longrightarrow> R w1 \<Longrightarrow> l_callback w1 x = Some c \<Longrightarrow>
            callL c (l_context w1 x) args w1 = Inr w2 \<Longrightarrow>
            R w2 \<and> (\<forall>r\<in>set (xs @ [y]). nxt w2 r = nxt w1 r \<and> prv w2 r = prv w1 r)"
  shows "R w \<Longrightarrow> seg w p xs y \<Longrightarrow> e \<notin> set xs \<Longrightarrow>
     callAll callL (nxt w p) e args w =
       (case call_each callL args xs w of
          Inl ew \<Rightarrow> Some (Inl ew)
        | Inr w' \<Rightarrow> callAll callL (Some y) e args w')"
  using step
proof (induction xs arbitrary: p w)
  case Nil
  then show ?case by simp
next
  case (Cons x xs)
  have nx: "nxt w p = Some x" and xe: "x \<noteq> e" using Cons.prems by auto
  show ?case
  proof (cases "l_callback w x")
    case None
    then show ?thesis using nx xe by (subst callAll.simps) simp
  next
    case (Some c)
    show ?thesis
    proof (cases "callL c (l_context w x) args w")
      case (Inl ew)
      then show ?thesis using nx xe Some by (subst callAll.simps) simp
    next
      case (Inr w1)
      have st: "R w1 \<and> (\<forall>r\<in>set ((x # xs) @ [y]). nxt w1 r = nxt w r \<and> prv w1 r = prv w r)"
        using Cons.prems(4) [of x w c w1] Cons.prems(1) Some Inr by simp
      have sg: "seg w1 x xs y"
        using Cons.prems(2) st by (intro seg_frame [of w x xs y w1]) auto
      have ih: "callAll callL (nxt w1 x) e args w1 =
          (case call_each callL args xs w1 of
             Inl ew \<Rightarrow> Some (Inl ew)
           | Inr w' \<Rightarrow> callAll callL (Some y) e args w')"
      proof (rule Cons.IH)
        show "R w1" using st by simp
        show "seg w1 x xs y" by (rule sg)
        show "e \<notin> set xs" using Cons.prems by simp
      next
        fix x' w1' w2' c'
        assume a: "x' \<in> set xs" "R w1'" "l_callback w1' x' = Some c'"
          "callL c' (l_context w1' x') args w1' = Inr w2'"
        show "R w2' \<and> (\<forall>r\<in>set (xs @ [y]). nxt w2' r = nxt w1' r \<and> prv w2' r = prv w1' r)"
          using Cons.prems(4) [of x' w1' c' w2'] a by simp
      qed
      show ?thesis using nx xe Some Inr ih by (subst callAll.simps) simp
    qed
  qed
qed

lemma callAll_end: "callAll callL (Some e) e args w = Some (Inr w)"
  by (subst callAll.simps) simp

text \<open>
  Claim C1. For every emitter whose listener list is not modified during the emission
  (every callback of a linked listener leaves the emitter and its listeners as they are),
  \<^verbatim>\<open>emit(args)\<close> is the call of each linked listener's callback, once, in the order
  of registration, each with \<open>args\<close>, and it returns after the last one.
\<close>

theorem emit_calls_each_listener_once_in_order:
  assumes l: "linked w e ls"
    and k: "\<forall>l\<in>set ls. \<forall>c. l_callback w l = Some c \<longrightarrow>
              keeps callL args (set (e # ls)) c (l_context w l)"
  shows "emit callL e args w = Some (call_each callL args ls w)"
proof -
  let ?R = "\<lambda>w1. unmodified (set (e # ls)) w w1"
  have "callAll callL (nxt w e) e args w =
       (case call_each callL args ls w of
          Inl ew \<Rightarrow> Some (Inl ew)
        | Inr w' \<Rightarrow> callAll callL (Some e) e args w')"
  proof (rule callAll_prefix [where R = ?R])
    show "?R w" by (rule unmodified_refl)
    show "seg w e ls e" using l by (simp add: linked_def)
    show "e \<notin> set ls" using l by (simp add: linked_def)
  next
    fix x w1 w2 c
    assume a: "x \<in> set ls" "?R w1" "l_callback w1 x = Some c"
      "callL c (l_context w1 x) args w1 = Inr w2"
    have "l_callback w x = Some c" "l_context w1 x = l_context w x"
      using a by (auto simp: unmodified_def)
    then have "unmodified (set (e # ls)) w1 w2"
      using k a by (auto simp: keeps_def)
    then show "?R w2 \<and> (\<forall>r\<in>set (ls @ [e]). nxt w2 r = nxt w1 r \<and> prv w2 r = prv w1 r)"
      using a(2) by (auto intro: unmodified_trans simp: unmodified_def)
  qed
  then show ?thesis
    by (simp add: emit_def callAll_end split: sum.splits)
qed

lemma keeps_Record: "keeps run_cb args S (Record n) cx"
  by (simp add: keeps_def unmodified_def)


lemmas scene_defs = scene_def Emitter_new_def LLink_new_def empty_world_def addListener_def
      Listener_new_def insertBefore_def triggerChangeCB_def

theorem emit_calls_each_listener_once_in_order_witness:
  "linked (scene [Record 1, Record 2, Record 3]) 0 [1, 2, 3] \<and>
   emit run_cb 0 [Num 7] (scene [Record 1, Record 2, Record 3]) =
     Some (Inr ((scene [Record 1, Record 2, Record 3])
       \<lparr>user := [Called 1 [Num 7], Called 2 [Num 7], Called 3 [Num 7]]\<rparr>))"
proof -
  have l: "linked (scene [Record 1, Record 2, Record 3]) 0 [1, 2, 3]"
    by (simp add: linked_def scene_defs)
  have k: "\<forall>l\<in>set [1, 2, 3]. \<forall>c. l_callback (scene [Record 1, Record 2, Record 3]) l = Some c \<longrightarrow>
      keeps run_cb [Num 7] (set (0 # [1, 2, 3])) c (l_context (scene [Record 1, Record 2, Record 3]) l)"
    by (simp add: scene_defs keeps_Record)
  show ?thesis
    using l emit_calls_each_listener_once_in_order [OF l k]
    by (simp add: scene_defs)
qed

subsection \<open>The list operations on a linked list\<close>

lemma seg_frame2:
  "seg w p xs q \<Longrightarrow> (\<forall>r\<in>set (p # xs). nxt w' r = nxt w r) \<Longrightarrow>
   (\<forall>r\<in>set (xs @ [q]). prv w' r = prv w r) \<Longrightarrow> seg w' p xs q"
  by (induction xs arbitrary: p) auto

lemma seg_last:
  "seg w p xs q \<Longrightarrow> nxt w (last (p # xs)) = Some q \<and> prv w q = Some (last (p # xs))"
  by (induction xs arbitrary: p) auto

lemma seg_hd:
  "seg w p xs q \<Longrightarrow> nxt w p = Some (hd (xs @ [q])) \<and> prv w (hd (xs @ [q])) = Some p"
  by (cases xs) auto

lemma seg_redirect:
  "seg w p xs q \<Longrightarrow> nxt w' (last (p # xs)) = Some q' \<Longrightarrow> prv w' q' = Some (last (p # xs)) \<Longrightarrow>
   (\<forall>r\<in>set (butlast (p # xs)). nxt w' r = nxt w r) \<Longrightarrow> (\<forall>r\<in>set xs. prv w' r = prv w r) \<Longrightarrow>
   seg w' p xs q'"
  by (induction xs arbitrary: p) auto

lemma last_notin_butlast: "distinct zs \<Longrightarrow> zs \<noteq> [] \<Longrightarrow> last zs \<notin> set (butlast zs)"
proof -
  assume a: "distinct zs" "zs \<noteq> []"
  then have "distinct (butlast zs @ [last zs])" by simp
  then show ?thesis by (simp only: distinct_append) auto
qed

lemma removeNode_linked:
  assumes l: "linked w e (xs @ d # ys)"
  defines "p \<equiv> last (e # xs)" and "n \<equiv> hd (ys @ [e])"
  defines "w' \<equiv> w\<lparr>nxt := (nxt w)(p := Some n, d := None), prv := (prv w)(n := Some p, d := None)\<rparr>"
  shows "removeNode d w = Inr w'" and "linked w' e (xs @ ys)"
proof -
  have d: "distinct (e # xs @ d # ys)" and s1: "seg w e xs d" and s2: "seg w d ys e"
    using l by (simp_all add: linked_def seg_append)
  have pd: "prv w d = Some p" "nxt w p = Some d"
    using seg_last [OF s1] by (simp_all add: p_def)
  have nd: "nxt w d = Some n" "prv w n = Some d"
    using seg_hd [OF s2] by (simp_all add: n_def)
  have pin: "p \<in> set (e # xs)" unfolding p_def by (rule last_in_set) simp
  have nin: "n \<in> set (ys @ [e])" unfolding n_def by (rule hd_in_set) simp
  have pne: "p \<noteq> d" using pin d by auto
  have bl: "\<forall>r\<in>set (butlast (e # xs)). r \<noteq> p \<and> r \<noteq> d"
    using last_notin_butlast [of "e # xs"] d unfolding p_def
    by (auto dest: in_set_butlastD)
  have nne: "n \<noteq> d" using nin d by auto
  show "removeNode d w = Inr w'"
    using pd nd pne nne by (simp add: removeNode_def w'_def fun_upd_twist)
  have "seg w' e (xs @ ys) e"
  proof (cases ys)
    case Nil
    then have ne: "n = e" by (simp add: n_def)
    have "seg w' e xs e"
    proof (rule seg_redirect [OF s1])
      show "nxt w' (last (e # xs)) = Some e" using pne ne by (simp add: w'_def p_def)
      show "prv w' e = Some (last (e # xs))" using d ne by (auto simp add: w'_def p_def)
      show "\<forall>r\<in>set (butlast (e # xs)). nxt w' r = nxt w r"
        using bl by (simp add: w'_def)
      show "\<forall>r\<in>set xs. prv w' r = prv w r" using d ne by (auto simp: w'_def)
    qed
    then show ?thesis using Nil by simp
  next
    case (Cons y ys')
    then have ny: "n = y" by (simp add: n_def)
    have a: "seg w' e xs y"
    proof (rule seg_redirect [OF s1])
      show "nxt w' (last (e # xs)) = Some y" using pne ny by (simp add: w'_def p_def)
      show "prv w' y = Some (last (e # xs))" using d ny Cons by (auto simp add: w'_def p_def)
      show "\<forall>r\<in>set (butlast (e # xs)). nxt w' r = nxt w r"
        using bl by (simp add: w'_def)
      show "\<forall>r\<in>set xs. prv w' r = prv w r" using d ny Cons by (auto simp: w'_def)
    qed
    have b: "seg w' y ys' e"
    proof (rule seg_frame2 [of w y ys' e])
      show "seg w y ys' e" using s2 Cons by simp
      show "\<forall>r\<in>set (y # ys'). nxt w' r = nxt w r" using d pin Cons by (auto simp: w'_def)
      show "\<forall>r\<in>set (ys' @ [e]). prv w' r = prv w r" using d ny Cons by (auto simp: w'_def)
    qed
    show ?thesis using a b Cons by (simp add: seg_append)
  qed
  then show "linked w' e (xs @ ys)" using d by (simp add: linked_def)
qed




lemma loop_step:
  "nxt w node = Some n \<Longrightarrow>
   disposeList_loop node (nxt w node) w =
     disposeList_loop n (nxt (w\<lparr>nxt := (nxt w)(node := None), prv := (prv w)(node := None)\<rparr>) n)
       (w\<lparr>nxt := (nxt w)(node := None), prv := (prv w)(node := None)\<rparr>)"
  by (subst disposeList_loop.simps) (simp add: Let_def)

lemma loop_stop: "disposeList_loop node None w = Some w"
  by (subst disposeList_loop.simps) simp


lemma path_frame:
  "path w p xs q \<Longrightarrow> (\<forall>r\<in>set (p # xs). nxt w' r = nxt w r) \<Longrightarrow> path w' p xs q"
  by (induction xs arbitrary: p) auto

lemma sever_step:
  "sever S (w\<lparr>nxt := (nxt w)(node := None), prv := (prv w)(node := None)\<rparr>) = sever (insert node S) w"
  by (simp add: sever_def fun_eq_iff)

lemma sever_one:
  "w\<lparr>nxt := (nxt w)(node := None), prv := (prv w)(node := None)\<rparr> = sever {node} w"
  by (simp add: sever_def fun_eq_iff)

lemma disposeList_loop_path:
  "path w node xs e \<Longrightarrow> nxt w e = None \<Longrightarrow> distinct (node # xs) \<Longrightarrow> e \<notin> set (node # xs) \<Longrightarrow>
   disposeList_loop node (nxt w node) w = Some (sever (set (node # xs)) w)"
proof (induction xs arbitrary: node w)
  case Nil
  let ?w1 = "w\<lparr>nxt := (nxt w)(node := None), prv := (prv w)(node := None)\<rparr>"
  have n: "nxt w node = Some e" using Nil.prems(1) by simp
  have e: "nxt ?w1 e = None" using Nil.prems(2,4) by simp
  have "disposeList_loop node (nxt w node) w = disposeList_loop e (nxt ?w1 e) ?w1"
    by (rule loop_step [OF n])
  also have "\<dots> = Some ?w1" unfolding e by (rule loop_stop)
  also have "?w1 = sever {node} w" by (rule sever_one)
  finally show ?case by simp
next
  case (Cons x xs)
  let ?w1 = "w\<lparr>nxt := (nxt w)(node := None), prv := (prv w)(node := None)\<rparr>"
  have n: "nxt w node = Some x" using Cons.prems(1) by simp
  have nx: "node \<notin> set (x # xs)" using Cons.prems(3) by simp
  have p: "path ?w1 x xs e"
  proof (rule path_frame [of w x xs e])
    show "path w x xs e" using Cons.prems(1) by simp
    show "\<forall>r\<in>set (x # xs). nxt ?w1 r = nxt w r" using nx by auto
  qed
  have e: "nxt ?w1 e = None" using Cons.prems(2,4) by simp
  have d: "distinct (x # xs)" "e \<notin> set (x # xs)" using Cons.prems(3,4) by simp_all
  have "disposeList_loop node (nxt w node) w = disposeList_loop x (nxt ?w1 x) ?w1"
    by (rule loop_step [OF n])
  also have "\<dots> = Some (sever (set (x # xs)) ?w1)"
    by (rule Cons.IH [OF p e d])
  also have "sever (set (x # xs)) ?w1 = sever (insert node (set (x # xs))) w"
    by (rule sever_step)
  finally show ?case by simp
qed

lemma seg_path: "seg w p xs q \<Longrightarrow> path w p xs q"
  by (induction xs arbitrary: p) auto

lemma disposeList_linked:
  assumes l: "linked w e ls"
  shows "disposeList e w = Some (sever (set (e # ls)) w)"
proof (cases ls)
  case Nil
  let ?w1 = "w\<lparr>nxt := (nxt w)(e := None), prv := (prv w)(e := None)\<rparr>"
  have n: "nxt w e = Some e" using l Nil by (simp add: linked_def)
  have e: "nxt ?w1 e = None" by simp
  have "disposeList_loop e (nxt w e) w = disposeList_loop e (nxt ?w1 e) ?w1"
    by (rule loop_step [OF n])
  also have "\<dots> = Some ?w1" unfolding e by (rule loop_stop)
  also have "?w1 = sever {e} w" by (rule sever_one)
  finally show ?thesis using Nil by (simp add: disposeList_def)
next
  case (Cons x xs)
  let ?w1 = "w\<lparr>nxt := (nxt w)(e := None), prv := (prv w)(e := None)\<rparr>"
  have d: "distinct (e # x # xs)" and s: "seg w e (x # xs) e"
    using l Cons by (simp_all add: linked_def)
  have n: "nxt w e = Some x" using s by simp
  have ne: "e \<notin> set (x # xs)" using d by simp
  have p: "path ?w1 x xs e"
  proof (rule path_frame [of w x xs e])
    show "path w x xs e" using s by (simp add: seg_path)
    show "\<forall>r\<in>set (x # xs). nxt ?w1 r = nxt w r" using ne by auto
  qed
  have e: "nxt ?w1 e = None" by simp
  have d': "distinct (x # xs)" using d by simp
  have "disposeList_loop e (nxt w e) w = disposeList_loop x (nxt ?w1 x) ?w1"
    by (rule loop_step [OF n])
  also have "\<dots> = Some (sever (set (x # xs)) ?w1)"
    by (rule disposeList_loop_path [OF p e d' ne])
  also have "sever (set (x # xs)) ?w1 = sever (insert e (set (x # xs))) w"
    by (rule sever_step)
  finally show ?thesis using Cons by (simp add: disposeList_def)
qed


subsection \<open>Disposal\<close>

lemma Emitter_dispose_linked:
  "linked w e ls \<Longrightarrow>
   Emitter_dispose e w =
     Some ((sever (set (e # ls)) w)\<lparr>changeCB := (changeCB w)(e := None),
              changeCBContext := (changeCBContext w)(e := Undefined)\<rparr>)"
  by (simp add: Emitter_dispose_def disposeList_linked sever_def)

lemma Emitter_dispose_links:
  assumes "linked w e ls" and "Emitter_dispose e w = Some w'"
  shows "nxt w' e = None" and "prv w' e = None" and "\<forall>l\<in>set ls. nxt w' l = None"
    and "fresh w' = fresh w"
  using Emitter_dispose_linked [OF assms(1)] assms(2) by (auto simp: sever_def)

lemma Listener_dispose_disposed: "nxt w l = None \<Longrightarrow> Listener_dispose callC l w = Inr w"
  by (simp add: Listener_dispose_def isDisposed_def)

text \<open>
  Claim C7. \<^verbatim>\<open>Emitter.dispose()\<close> nulls both links of the emitter and of every linked
  listener, so that afterwards every listener is disposed (also one that was disposed
  before) and disposing it again does nothing, and it resets the change callback to the
  no-op. No callback is called: the operation takes no interpretation of callbacks, and
  the world it returns differs from the one it got in those links and in the two fields
  of the change callback only.
\<close>

theorem Emitter_dispose_severs_all_listeners:
  assumes l: "linked w e ls"
  shows "\<exists>w'. Emitter_dispose e w = Some w' \<and>
           w' = (sever (set (e # ls)) w)\<lparr>changeCB := (changeCB w)(e := None),
                   changeCBContext := (changeCBContext w)(e := Undefined)\<rparr> \<and>
           (\<forall>l\<in>set ls. isDisposed w' l \<and> nxt w' l = None \<and> prv w' l = None \<and>
                      Listener_dispose callC l w' = Inr w') \<and>
           (\<forall>r. isDisposed w r \<longrightarrow> isDisposed w' r) \<and>
           changeCB w' e = None \<and> changeCBContext w' e = Undefined \<and>
           triggerChangeCB callC e w' = Inr w' \<and>
           user w' = user w \<and> l_callback w' = l_callback w \<and> fresh w' = fresh w"
  using Emitter_dispose_linked [OF l]
  by (simp add: sever_def isDisposed_def Listener_dispose_def triggerChangeCB_def)

text \<open>
  Claim C8. \<^verbatim>\<open>Listener.dispose()\<close> on a listener that is already disposed, also one
  whose links were nulled by \<^verbatim>\<open>dispose()\<close> of its emitter, returns without an error and
  leaves the world as it is, whatever the change callback would do: it is not called.
\<close>

theorem Listener_dispose_idempotent:
  "(isDisposed w l \<longrightarrow> Listener_dispose callC l w = Inr w) \<and>
   (linked w1 e ls \<and> l \<in> set ls \<and> Emitter_dispose e w1 = Some w' \<longrightarrow>
      isDisposed w' l \<and> Listener_dispose callC l w' = Inr w')"
proof (intro conjI impI)
  assume "isDisposed w l"
  then show "Listener_dispose callC l w = Inr w"
    by (simp add: Listener_dispose_def)
next
  assume a: "linked w1 e ls \<and> l \<in> set ls \<and> Emitter_dispose e w1 = Some w'"
  then have "nxt w' l = None"
    using Emitter_dispose_links(3) [of w1 e ls w'] by simp
  then show "isDisposed w' l" "Listener_dispose callC l w' = Inr w'"
    by (simp_all add: Listener_dispose_def isDisposed_def)
qed

text \<open>
  Claim C9. \<^verbatim>\<open>addListener\<close> on a disposed emitter throws a TypeError, from the read of
  the emitter's null prev link in \<^verbatim>\<open>_insertBefore\<close>; the links of the emitter stay null.
\<close>

theorem addListener_on_disposed_emitter_fails:
  assumes l: "linked w e ls" and d: "Emitter_dispose e w = Some w'" and a: "e < fresh w"
  shows "\<exists>w''. addListener callC e cb cx w' = Inl (TypeError, w'') \<and>
           nxt w'' e = None \<and> prv w'' e = None \<and> user w'' = user w'"
proof -
  have p: "prv w' e = None" "nxt w' e = None" and f: "fresh w' = fresh w"
    using Emitter_dispose_linked [OF l] d by (auto simp: sever_def)
  have ne: "e \<noteq> fresh w'" using a f by simp
  obtain this w1 where n: "LLink_new w' = (this, w1)" by (cases "LLink_new w'")
  then have w1: "prv w1 e = None" "nxt w1 e = None" "user w1 = user w'"
    using p ne by (auto simp: LLink_new_def Let_def)
  let ?w2 = "w1\<lparr>l_emitter := (l_emitter w1)(this := e),
                    l_callback := (l_callback w1)(this := Some cb),
                    l_context := (l_context w1)(this := cx)\<rparr>"
  have "insertBefore e this ?w2 = Inl (TypeError, ?w2)"
    using w1 by (simp add: insertBefore_def)
  then have "addListener callC e cb cx w' = Inl (TypeError, ?w2)"
    using n by (simp add: addListener_def Listener_new_def)
  then show ?thesis using w1 by simp
qed

text \<open>
  Claim C5, as amended. \<^verbatim>\<open>emit()\<close> on a disposed emitter calls no callback and changes
  nothing, but it is not silent: it throws a TypeError, because \<^verbatim>\<open>dispose()\<close> has nulled
  the emitter's own next link, which \<^verbatim>\<open>emit\<close> hands to \<^verbatim>\<open>callAll\<close> as the first listener.
\<close>

theorem emit_on_disposed_emitter_throws:
  assumes l: "linked w e ls" and d: "Emitter_dispose e w = Some w'"
  shows "emit callL e args w' = Some (Inl (TypeError, w'))"
proof -
  have "nxt w' e = None"
    using Emitter_dispose_linked [OF l] d by (auto simp: sever_def)
  then show ?thesis
    unfolding emit_def by (subst callAll.simps) simp
qed


lemma linked_scene1: "linked (scene [Record 1]) 0 [1]"
  by (simp add: linked_def scene_defs)

lemma linked_scene2: "linked (scene [Record 1, Record 2]) 0 [1, 2]"
  by (simp add: linked_def scene_defs)

lemma disposed_scene1: "Emitter_dispose 0 (scene [Record 1]) = Some (disposed_scene [Record 1])"
  unfolding disposed_scene_def Emitter_dispose_linked [OF linked_scene1] by simp

lemma disposed_scene2:
  "Emitter_dispose 0 (scene [Record 1, Record 2]) = Some (disposed_scene [Record 1, Record 2])"
  unfolding disposed_scene_def Emitter_dispose_linked [OF linked_scene2] by simp

theorem Emitter_dispose_severs_all_listeners_witness:
  "linked (scene [Record 1, Record 2]) 0 [1, 2] \<and>
   Emitter_dispose 0 (scene [Record 1, Record 2]) = Some (disposed_scene [Record 1, Record 2]) \<and>
   isDisposed (disposed_scene [Record 1, Record 2]) 1 \<and>
   isDisposed (disposed_scene [Record 1, Record 2]) 2 \<and>
   Listener_dispose run_change 2 (disposed_scene [Record 1, Record 2]) =
     Inr (disposed_scene [Record 1, Record 2]) \<and>
   user (disposed_scene [Record 1, Record 2]) = []"
proof -
  obtain w' where w: "Emitter_dispose 0 (scene [Record 1, Record 2]) = Some w'"
    "\<forall>l\<in>set [1, 2]. isDisposed w' l \<and> nxt w' l = None \<and> prv w' l = None \<and>
                      Listener_dispose run_change l w' = Inr w'"
    "user w' = user (scene [Record 1, Record 2])"
    using Emitter_dispose_severs_all_listeners [OF linked_scene2, of run_change] by blast
  have "w' = disposed_scene [Record 1, Record 2]" using w(1) disposed_scene2 by simp
  moreover have "user (scene [Record 1, Record 2]) = []" by (simp add: scene_defs)
  ultimately show ?thesis using w linked_scene2 by simp
qed

theorem Listener_dispose_idempotent_witness:
  "isDisposed (disposed_scene [Record 1]) 1 \<and>
   linked (scene [Record 1]) 0 [1] \<and> 1 \<in> set [1::nat] \<and>
   Emitter_dispose 0 (scene [Record 1]) = Some (disposed_scene [Record 1]) \<and>
   Listener_dispose run_change 1 (disposed_scene [Record 1]) = Inr (disposed_scene [Record 1])"
  using Listener_dispose_idempotent
    [where w = "disposed_scene [Record 1]" and l = 1 and callC = run_change and ?w1.0 = "scene [Record 1]"
       and e = 0 and ls = "[1]" and w' = "disposed_scene [Record 1]"]
    linked_scene1 disposed_scene1
  by simp

theorem addListener_on_disposed_emitter_fails_witness:
  "linked (scene [Record 1]) 0 [1] \<and>
   Emitter_dispose 0 (scene [Record 1]) = Some (disposed_scene [Record 1]) \<and>
   0 < fresh (scene [Record 1]) \<and>
   (\<exists>w''. addListener run_change 0 (Record 2) Undefined (disposed_scene [Record 1]) =
            Inl (TypeError, w''))"
proof -
  have f: "0 < fresh (scene [Record 1])" by (simp add: scene_defs)
  show ?thesis
    using addListener_on_disposed_emitter_fails
      [OF linked_scene1 disposed_scene1 f, of run_change "Record 2" Undefined]
      linked_scene1 disposed_scene1 f
    by blast
qed

theorem emit_on_disposed_emitter_throws_witness:
  "linked (scene [Record 1]) 0 [1] \<and>
   Emitter_dispose 0 (scene [Record 1]) = Some (disposed_scene [Record 1]) \<and>
   emit run_cb 0 [Num 7] (disposed_scene [Record 1]) =
     Some (Inl (TypeError, disposed_scene [Record 1]))"
  using emit_on_disposed_emitter_throws [OF linked_scene1 disposed_scene1, of run_cb "[Num 7]"]
    linked_scene1 disposed_scene1
  by simp

text \<open>
  Claim C5 as stated fails: after \<^verbatim>\<open>new Emitter()\<close>, one \<^verbatim>\<open>addListener\<close> and
  \<^verbatim>\<open>dispose()\<close>, \<^verbatim>\<open>emit()\<close> throws.
\<close>

theorem emit_after_dispose_not_silent:
  "Emitter_dispose 0 (scene [Record 1]) = Some (disposed_scene [Record 1]) \<and>
   emit run_cb 0 [] (disposed_scene [Record 1]) \<noteq> Some (Inr (disposed_scene [Record 1])) \<and>
   emit run_cb 0 [] (disposed_scene [Record 1]) = Some (Inl (TypeError, disposed_scene [Record 1]))"
proof -
  have "nxt (disposed_scene [Record 1]) 0 = None"
    by (rule Emitter_dispose_links(1) [OF linked_scene1 disposed_scene1])
  then have "emit run_cb 0 [] (disposed_scene [Record 1]) =
      Some (Inl (TypeError, disposed_scene [Record 1]))"
    unfolding emit_def by (subst callAll.simps) simp
  then show ?thesis using disposed_scene1 by simp
qed

text \<open>
  Claim C3 fails on the code. The emitter has two listeners; the callback of the first
  disposes the first. \<^verbatim>\<open>emit()\<close> throws a TypeError when the callback has returned: the
  loop reads the next link of the listener after the call, and the disposal has nulled it.
  The second listener is still linked and is never called.
\<close>

theorem self_disposal_during_emit_throws:
  "\<exists>w'. emit run_cb 0 [] (scene [DisposeListener 1, Record 2]) = Some (Inl (TypeError, w')) \<and>
         user w' = [] \<and> linked w' 0 [2] \<and> isDisposed w' 1"
  by (simp add: emit_def scene_defs callAll.simps Listener_dispose_def isDisposed_def removeNode_def
      linked_def)


subsection \<open>Disposing another listener during an emission\<close>

lemma call_each_inv:
  assumes step: "\<And>x w1. x \<in> set xs \<Longrightarrow> R w1 \<Longrightarrow>
            \<exists>c w2. l_callback w1 x = Some c \<and> callL c (l_context w1 x) args w1 = Inr w2 \<and> R w2"
  shows "R w \<Longrightarrow> \<exists>w'. call_each callL args xs w = Inr w' \<and> R w'"
  using step
proof (induction xs arbitrary: w)
  case Nil
  then show ?case by simp
next
  case (Cons x xs)
  obtain c w2 where c: "l_callback w x = Some c" "callL c (l_context w x) args w = Inr w2" "R w2"
    using Cons.prems(2) [of x w] Cons.prems(1) by auto
  have "\<exists>w'. call_each callL args xs w2 = Inr w' \<and> R w'"
  proof (rule Cons.IH [OF c(3)])
    fix y w1
    assume "y \<in> set xs" "R w1"
    then show "\<exists>c w2. l_callback w1 y = Some c \<and> callL c (l_context w1 y) args w1 = Inr w2 \<and> R w2"
      using Cons.prems(2) [of y w1] by simp
  qed
  then show ?case using c by simp
qed

text \<open>A stretch of quiet listeners: every callback is called, the list objects stay as they are.\<close>

lemma quiet_stretch:
  assumes s: "seg w p xs y" and e: "e \<notin> set xs" and sub: "set (xs @ [y]) \<subseteq> S"
    and q: "\<forall>x\<in>set xs. \<exists>c. l_callback w x = Some c \<and> quiet callL args S c (l_context w x)"
  shows "\<exists>w'. call_each callL args xs w = Inr w' \<and> unmodified S w w' \<and>
           callAll callL (nxt w p) e args w = callAll callL (Some y) e args w'"
proof -
  let ?R = "\<lambda>w1. unmodified S w w1"
  have st: "\<exists>c w2. l_callback w1 x = Some c \<and> callL c (l_context w1 x) args w1 = Inr w2 \<and>
              unmodified S w1 w2" if xin: "x \<in> set xs" and r1: "?R w1" for x w1
  proof -
    obtain c where c: "l_callback w x = Some c" "quiet callL args S c (l_context w x)"
      using q xin by auto
    have "x \<in> S" using sub xin by auto
    then have "l_callback w1 x = Some c" "l_context w1 x = l_context w x"
      using r1 c(1) by (auto simp: unmodified_def)
    then show ?thesis using c(2) by (auto simp: quiet_def)
  qed
  have a: "\<exists>w'. call_each callL args xs w = Inr w' \<and> ?R w'"
  proof (rule call_each_inv [where R = ?R])
    show "?R w" by (rule unmodified_refl)
  next
    fix x w1
    assume "x \<in> set xs" "?R w1"
    then show "\<exists>c w2. l_callback w1 x = Some c \<and> callL c (l_context w1 x) args w1 = Inr w2 \<and> ?R w2"
      using st [of x w1] by (auto intro: unmodified_trans)
  qed
  have b: "callAll callL (nxt w p) e args w =
       (case call_each callL args xs w of
          Inl ew \<Rightarrow> Some (Inl ew)
        | Inr w' \<Rightarrow> callAll callL (Some y) e args w')"
  proof (rule callAll_prefix [where R = ?R])
    show "?R w" by (rule unmodified_refl)
    show "seg w p xs y" by (rule s)
    show "e \<notin> set xs" by (rule e)
  next
    fix x w1 w2 c
    assume h: "x \<in> set xs" "?R w1" "l_callback w1 x = Some c"
      "callL c (l_context w1 x) args w1 = Inr w2"
    then have u: "unmodified S w1 w2" using st [of x w1] by auto
    then have "?R w2" using h(2) by (auto intro: unmodified_trans)
    moreover have "\<forall>r\<in>set (xs @ [y]). nxt w2 r = nxt w1 r \<and> prv w2 r = prv w1 r"
      using u sub by (auto simp: unmodified_def)
    ultimately show "?R w2 \<and> (\<forall>r\<in>set (xs @ [y]). nxt w2 r = nxt w1 r \<and> prv w2 r = prv w1 r)"
      by simp
  qed
  show ?thesis using a b by auto
qed

lemma quiet_transfer:
  "\<forall>x\<in>set xs. \<exists>c. l_callback w x = Some c \<and> quiet callL args S c (l_context w x) \<Longrightarrow>
   \<forall>x\<in>S. l_callback w' x = l_callback w x \<and> l_context w' x = l_context w x \<Longrightarrow> set xs \<subseteq> S \<Longrightarrow>
   \<forall>x\<in>set xs. \<exists>c. l_callback w' x = Some c \<and> quiet callL args S c (l_context w' x)"
  by (metis subsetD)

lemma triggerChangeCB_quiet:
  "\<forall>cc. changeCB w e = Some cc \<longrightarrow> quietC callC S cc (changeCBContext w e) \<Longrightarrow>
   \<exists>w'. triggerChangeCB callC e w = Inr w' \<and> unmodified S w w'"
  by (cases "changeCB w e") (auto simp: triggerChangeCB_def quietC_def unmodified_refl)

lemma Listener_dispose_linked:
  assumes l: "linked w e (xs @ d # ys)" and em: "l_emitter w d = e"
    and ch: "\<forall>cc. changeCB w e = Some cc \<longrightarrow> quietC callC S cc (changeCBContext w e)"
    and sub: "set (e # xs @ d # ys) \<subseteq> S"
  shows "\<exists>w'. Listener_dispose callC d w = Inr w' \<and>
           linked w' e (xs @ ys) \<and> nxt w' d = None \<and> prv w' d = None \<and>
           (\<forall>x\<in>S. l_callback w' x = l_callback w x \<and> l_context w' x = l_context w x \<and>
                  l_emitter w' x = l_emitter w x \<and> changeCB w' x = changeCB w x \<and>
                  changeCBContext w' x = changeCBContext w x) \<and> fresh w \<le> fresh w' \<and>
           (\<forall>x\<in>S. x \<notin> set (e # xs @ d # ys) \<longrightarrow> nxt w' x = nxt w x \<and> prv w' x = prv w x)"
proof -
  define w1 where "w1 = w\<lparr>nxt := (nxt w)(last (e # xs) := Some (hd (ys @ [e])), d := None),
                           prv := (prv w)(hd (ys @ [e]) := Some (last (e # xs)), d := None)\<rparr>"
  have r: "removeNode d w = Inr w1" and l1: "linked w1 e (xs @ ys)"
    using removeNode_linked [OF l] by (simp_all add: w1_def)
  have "seg w d ys e" using l by (simp add: linked_def seg_append)
  then have nd: "nxt w d \<noteq> None" using seg_hd [of w d ys e] by simp
  have f: "l_emitter w1 d = e" "changeCB w1 e = changeCB w e"
    "changeCBContext w1 e = changeCBContext w e"
    using em by (simp_all add: w1_def)
  obtain w' where t: "triggerChangeCB callC e w1 = Inr w'" "unmodified S w1 w'"
    using triggerChangeCB_quiet [of w1 e callC S] ch f by auto
  have ld: "Listener_dispose callC d w = Inr w'"
    using nd r f t by (auto simp: Listener_dispose_def isDisposed_def)
  have l': "linked w' e (xs @ ys)"
    using linked_unmodified [OF l1 t(2)] sub by auto
  have dS: "d \<in> S" using sub by simp
  have n1: "nxt w1 d = None" "prv w1 d = None" by (simp_all add: w1_def)
  have n: "nxt w' d = None" "prv w' d = None"
    using t(2) dS n1 by (auto simp: unmodified_def)
  have g: "\<forall>x\<in>S. l_callback w' x = l_callback w x \<and> l_context w' x = l_context w x \<and>
                  l_emitter w' x = l_emitter w x \<and> changeCB w' x = changeCB w x \<and>
                  changeCBContext w' x = changeCBContext w x"
    using t(2) by (auto simp: unmodified_def w1_def)
  have pin: "last (e # xs) \<in> set (e # xs)" by (rule last_in_set) simp
  have nin: "hd (ys @ [e]) \<in> set (ys @ [e])" by (rule hd_in_set) simp
  have fr: "\<forall>x\<in>S. x \<notin> set (e # xs @ d # ys) \<longrightarrow> nxt w' x = nxt w x \<and> prv w' x = prv w x"
  proof (intro ballI impI)
    fix x assume x: "x \<in> S" "x \<notin> set (e # xs @ d # ys)"
    then have "x \<noteq> last (e # xs)" "x \<noteq> hd (ys @ [e])" "x \<noteq> d" using pin nin by auto
    then have "nxt w1 x = nxt w x \<and> prv w1 x = prv w x" by (simp add: w1_def)
    then show "nxt w' x = nxt w x \<and> prv w' x = prv w x"
      using t(2) x(1) by (simp add: unmodified_def)
  qed
  have "fresh w \<le> fresh w'" using t(2) by (simp add: unmodified_def w1_def)
  then show ?thesis using ld l' n g fr by blast
qed


text \<open>
  Claim C2. The listener \<open>l\<close> is linked before the listener \<open>d\<close>, and the callback of \<open>l\<close>
  disposes \<open>d\<close> (after anything that leaves the list as it is); the other callbacks and
  the change callback are quiet. Then one \<^verbatim>\<open>emit()\<close> returns without an exception, it is
  the call of the callbacks of all listeners but \<open>d\<close>, in order, and it leaves the list
  well formed without \<open>d\<close>; a second \<^verbatim>\<open>emit()\<close> calls exactly the listeners that are left.
  The scenario with the listeners L1, L2, L3, where the callback of L2 disposes L3, is the
  instance that follows the theorem.
\<close>

theorem dispose_of_later_listener_during_emit:
  fixes w :: "('cb, 'ccb, 'u) world" and e l d :: ref and pre mid post :: "ref list"
  defines "S \<equiv> set (e # pre @ l # mid @ d # post)"
  assumes l: "linked w e (pre @ l # mid @ d # post)"
    and cb: "l_callback w l = Some c"
    and c: "\<forall>w1. \<exists>w2. unmodified S w1 w2 \<and>
              callL c (l_context w l) args w1 = Listener_dispose callC d w2"
    and em: "l_emitter w d = e"
    and ch: "\<forall>cc. changeCB w e = Some cc \<longrightarrow> quietC callC S cc (changeCBContext w e)"
    and q: "\<forall>x\<in>set (pre @ mid @ post).
              \<exists>c'. l_callback w x = Some c' \<and> quiet callL args S c' (l_context w x)"
  shows "\<exists>w'. emit callL e args w = Some (Inr w') \<and>
           call_each callL args (pre @ l # mid @ post) w = Inr w' \<and>
           linked w' e (pre @ l # mid @ post) \<and> isDisposed w' d \<and>
           (\<exists>w''. emit callL e args w' = Some (Inr w'') \<and>
                  call_each callL args (pre @ l # mid @ post) w' = Inr w'' \<and>
                  linked w'' e (pre @ l # mid @ post) \<and> isDisposed w'' d)"
proof -
  let ?ls1 = "pre @ l # mid @ post"
  have dist: "distinct (e # pre @ l # mid @ d # post)"
    and sg: "seg w e (pre @ l # mid @ d # post) e"
    using l by (simp_all add: linked_def)
  have le: "l \<noteq> e" and ld: "l \<noteq> d" using dist by auto
  have inS: "e \<in> S" "l \<in> S" "d \<in> S" "set pre \<subseteq> S" "set mid \<subseteq> S" "set post \<subseteq> S"
    by (auto simp: S_def)
  \<comment> \<open>the listeners before \<open>l\<close>\<close>
  have "seg w e pre l" using sg by (simp add: seg_append)
  moreover have "e \<notin> set pre" using dist by simp
  moreover have "set (pre @ [l]) \<subseteq> S" using inS by simp
  moreover have "\<forall>x\<in>set pre. \<exists>c'. l_callback w x = Some c' \<and> quiet callL args S c' (l_context w x)"
    using q by simp
  ultimately obtain w1 where w1: "call_each callL args pre w = Inr w1" "unmodified S w w1"
    "callAll callL (nxt w e) e args w = callAll callL (Some l) e args w1"
    using quiet_stretch [of w e pre l e S callL args] by blast
  have cl1: "l_callback w1 l = Some c" "l_context w1 l = l_context w l"
    using w1(2) inS cb by (simp_all add: unmodified_def)
  \<comment> \<open>the callback of \<open>l\<close> disposes \<open>d\<close>\<close>
  obtain w2 where w2: "unmodified S w1 w2"
    "callL c (l_context w l) args w1 = Listener_dispose callC d w2"
    using c by blast
  have u2: "unmodified S w w2" by (rule unmodified_trans [OF w1(2) w2(1)])
  have l2: "linked w2 e ((pre @ l # mid) @ d # post)"
    using linked_unmodified [OF l u2] by (simp add: S_def)
  have f2: "\<forall>x\<in>S. l_callback w2 x = l_callback w x \<and> l_context w2 x = l_context w x \<and>
      l_emitter w2 x = l_emitter w x \<and> changeCB w2 x = changeCB w x \<and>
      changeCBContext w2 x = changeCBContext w x"
    using u2 by (simp add: unmodified_def)
  have "l_emitter w2 d = e" using f2 inS em by simp
  moreover have "\<forall>cc. changeCB w2 e = Some cc \<longrightarrow> quietC callC S cc (changeCBContext w2 e)"
    using f2 inS ch by simp
  moreover have "set (e # (pre @ l # mid) @ d # post) \<subseteq> S" by (auto simp: S_def)
  ultimately obtain w3 where w3: "Listener_dispose callC d w2 = Inr w3"
    "linked w3 e ((pre @ l # mid) @ post)" "nxt w3 d = None"
    "\<forall>x\<in>S. l_callback w3 x = l_callback w2 x \<and> l_context w3 x = l_context w2 x"
    using Listener_dispose_linked [OF l2, of callC S] by blast
  have f3: "\<forall>x\<in>S. l_callback w3 x = l_callback w x \<and> l_context w3 x = l_context w x"
    using w3(4) f2 by simp
  have step: "callAll callL (Some l) e args w1 = callAll callL (nxt w3 l) e args w3"
    using le cl1 w2(2) w3(1) by (subst callAll.simps) simp
  \<comment> \<open>the listeners after \<open>l\<close>, without \<open>d\<close>\<close>
  have sg3: "seg w3 e (pre @ l # mid @ post) e" and dist3: "distinct (e # pre @ l # mid @ post)"
    using w3(2) by (simp_all add: linked_def)
  have "seg w3 l (mid @ post) e" using sg3 by (simp add: seg_append)
  moreover have "e \<notin> set (mid @ post)" using dist by simp
  moreover have "set ((mid @ post) @ [e]) \<subseteq> S" using inS by simp
  moreover have "\<forall>x\<in>set (mid @ post).
      \<exists>c'. l_callback w3 x = Some c' \<and> quiet callL args S c' (l_context w3 x)"
  proof (rule quiet_transfer [of "mid @ post" w callL args S w3])
    show "\<forall>x\<in>set (mid @ post). \<exists>c. l_callback w x = Some c \<and> quiet callL args S c (l_context w x)"
      using q by simp
    show "\<forall>x\<in>S. l_callback w3 x = l_callback w x \<and> l_context w3 x = l_context w x" by (rule f3)
    show "set (mid @ post) \<subseteq> S" using inS by simp
  qed
  ultimately obtain w4 where w4: "call_each callL args (mid @ post) w3 = Inr w4"
    "unmodified S w3 w4"
    "callAll callL (nxt w3 l) e args w3 = callAll callL (Some e) e args w4"
    using quiet_stretch [of w3 l "mid @ post" e e S callL args] by blast
  have em1: "emit callL e args w = Some (Inr w4)"
    using w1(3) step w4(3) by (simp add: emit_def callAll_end)
  have ce1: "call_each callL args ?ls1 w = Inr w4"
    using w1(1) cl1 w2(2) w3(1) w4(1) by (simp add: call_each_append)
  have l4: "linked w4 e ?ls1"
    using linked_unmodified [OF w3(2) w4(2)] by (auto simp: S_def)
  have d4: "nxt w4 d = None" using w4(2) w3(3) inS by (simp add: unmodified_def)
  have f4: "\<forall>x\<in>S. l_callback w4 x = l_callback w x \<and> l_context w4 x = l_context w x"
    using w4(2) f3 by (simp add: unmodified_def)
  \<comment> \<open>the second emission\<close>
  let ?R = "\<lambda>v. nxt v d = None \<and>
      (\<forall>x\<in>S. l_callback v x = l_callback w x \<and> l_context v x = l_context w x \<and>
             nxt v x = nxt w4 x \<and> prv v x = prv w4 x)"
  have R4: "?R w4" using d4 f4 by simp
  have st: "\<exists>c' v2. l_callback v x = Some c' \<and> callL c' (l_context v x) args v = Inr v2 \<and> ?R v2"
    if xin: "x \<in> set ?ls1" and rv: "?R v" for x v
  proof (cases "x = l")
    case True
    obtain v1 where v1: "unmodified S v v1"
      "callL c (l_context w l) args v = Listener_dispose callC d v1"
      using c by blast
    have r1: "?R v1" using v1(1) rv inS d4 by (simp add: unmodified_def)
    then have "Listener_dispose callC d v1 = Inr v1" by (simp add: Listener_dispose_disposed)
    then show ?thesis using True rv inS cb v1(2) r1 by auto
  next
    case False
    then have xq: "x \<in> set (pre @ mid @ post)" using xin by auto
    then obtain c' where c': "l_callback w x = Some c'" "quiet callL args S c' (l_context w x)"
      using q by blast
    have xS: "x \<in> S" using xq inS by auto
    obtain v2 where v2: "callL c' (l_context w x) args v = Inr v2" "unmodified S v v2"
      using c'(2) by (auto simp: quiet_def)
    have "?R v2" using v2(2) rv inS d4 by (simp add: unmodified_def)
    then show ?thesis using c' v2(1) rv xS by auto
  qed
  have ce2: "\<exists>w''. call_each callL args ?ls1 w4 = Inr w'' \<and> ?R w''"
  proof (rule call_each_inv [where R = ?R])
    show "?R w4" by (rule R4)
  next
    fix x and v :: "('cb, 'ccb, 'u) world"
    assume "x \<in> set ?ls1" "?R v"
    then show "\<exists>c' v2. l_callback v x = Some c' \<and> callL c' (l_context v x) args v = Inr v2 \<and> ?R v2"
      by (rule st)
  qed
  then obtain w5 where w5: "call_each callL args ?ls1 w4 = Inr w5" "?R w5" by blast
  have "callAll callL (nxt w4 e) e args w4 =
       (case call_each callL args ?ls1 w4 of
          Inl ew \<Rightarrow> Some (Inl ew)
        | Inr w' \<Rightarrow> callAll callL (Some e) e args w')"
  proof (rule callAll_prefix [where R = ?R])
    show "?R w4" by (rule R4)
    show "seg w4 e ?ls1 e" using l4 by (simp add: linked_def)
    show "e \<notin> set ?ls1" using dist by simp
  next
    fix x v v2 c'
    assume h: "x \<in> set ?ls1" "?R v" "l_callback v x = Some c'"
      "callL c' (l_context v x) args v = Inr v2"
    then have r2: "?R v2" using st [of x v] by auto
    have "set (?ls1 @ [e]) \<subseteq> S" using inS by auto
    moreover have "\<forall>r\<in>S. nxt v2 r = nxt v r \<and> prv v2 r = prv v r"
      using r2 h(2) by simp
    ultimately have "\<forall>r\<in>set (?ls1 @ [e]). nxt v2 r = nxt v r \<and> prv v2 r = prv v r"
      by blast
    then show "?R v2 \<and> (\<forall>r\<in>set (?ls1 @ [e]). nxt v2 r = nxt v r \<and> prv v2 r = prv v r)"
      using r2 by blast
  qed
  then have em2: "emit callL e args w4 = Some (Inr w5)"
    using w5(1) by (simp add: emit_def callAll_end)
  have "seg w5 e ?ls1 e"
  proof (rule seg_frame [of w4 e ?ls1 e])
    show "seg w4 e ?ls1 e" using l4 by (simp add: linked_def)
    have "set (e # ?ls1 @ [e]) \<subseteq> S" using inS by auto
    moreover have "\<forall>r\<in>S. nxt w5 r = nxt w4 r \<and> prv w5 r = prv w4 r"
      using w5(2) by simp
    ultimately show "\<forall>r\<in>set (e # ?ls1 @ [e]). nxt w5 r = nxt w4 r \<and> prv w5 r = prv w4 r"
      by blast
  qed
  then have l5: "linked w5 e ?ls1" using dist3 by (simp add: linked_def)
  show ?thesis
    using em1 ce1 l4 d4 em2 w5 l5 by (auto simp: isDisposed_def)
qed


lemma quiet_Record: "quiet run_cb args S (Record n) cx"
  by (simp add: quiet_def unmodified_def)

theorem dispose_of_later_listener_during_emit_witness:
  "linked (scene [Record 1, Seq (Record 2) (DisposeListener 3), Record 3]) 0 [1, 2, 3] \<and>
   (\<exists>w'. emit run_cb 0 [] (scene [Record 1, Seq (Record 2) (DisposeListener 3), Record 3]) =
            Some (Inr w') \<and>
          user w' = [Called 1 [], Called 2 []] \<and> linked w' 0 [1, 2] \<and> isDisposed w' 3 \<and>
          (\<exists>w''. emit run_cb 0 [] w' = Some (Inr w'') \<and>
             user w'' = [Called 1 [], Called 2 [], Called 1 [], Called 2 []] \<and>
             linked w'' 0 [1, 2]))"
proof -
  let ?w = "scene [Record 1, Seq (Record 2) (DisposeListener 3), Record 3]"
  let ?S = "set (0 # [1] @ 2 # [] @ 3 # [])"
  have l: "linked ?w 0 ([1] @ 2 # [] @ 3 # [])" by (simp add: linked_def scene_defs)
  have cb: "l_callback ?w 2 = Some (Seq (Record 2) (DisposeListener 3))" by (simp add: scene_defs)
  have c: "\<forall>w1. \<exists>w2. unmodified ?S w1 w2 \<and>
      run_cb (Seq (Record 2) (DisposeListener 3)) (l_context ?w 2) [] w1 =
        Listener_dispose run_change 3 w2"
  proof
    fix w1 :: "(cb, nat, event list) world"
    have "unmodified ?S w1 (w1\<lparr>user := user w1 @ [Called 2 []]\<rparr>)"
      by (simp add: unmodified_def)
    then show "\<exists>w2. unmodified ?S w1 w2 \<and>
      run_cb (Seq (Record 2) (DisposeListener 3)) (l_context ?w 2) [] w1 =
        Listener_dispose run_change 3 w2"
      by (intro exI [of _ "w1\<lparr>user := user w1 @ [Called 2 []]\<rparr>"]) simp
  qed
  have em: "l_emitter ?w 3 = 0" by (simp add: scene_defs)
  have ch: "\<forall>cc. changeCB ?w 0 = Some cc \<longrightarrow> quietC run_change ?S cc (changeCBContext ?w 0)"
    by (simp add: scene_defs)
  have q: "\<forall>x\<in>set ([1] @ [] @ []). \<exists>c'. l_callback ?w x = Some c' \<and>
      quiet run_cb [] ?S c' (l_context ?w x)"
    by (simp add: scene_defs quiet_Record)
  obtain w' w'' where r: "emit run_cb 0 [] ?w = Some (Inr w')"
    "call_each run_cb [] ([1] @ 2 # [] @ []) ?w = Inr w'"
    "linked w' 0 ([1] @ 2 # [] @ [])" "isDisposed w' 3"
    "emit run_cb 0 [] w' = Some (Inr w'')"
    "call_each run_cb [] ([1] @ 2 # [] @ []) w' = Inr w''"
    "linked w'' 0 ([1] @ 2 # [] @ [])"
    using dispose_of_later_listener_during_emit [OF l cb c em ch q] by blast
  have u': "user w' = [Called 1 [], Called 2 []]"
    using r(2) by (auto simp: scene_defs Listener_dispose_def isDisposed_def removeNode_def)
  have u'': "user w'' = user w' @ [Called 1 [], Called 2 []]"
    using r(2,6) by (auto simp: scene_defs Listener_dispose_def isDisposed_def removeNode_def)
  show ?thesis using l r(1,3,4,5,7) u' u'' by auto
qed


subsection \<open>Adding a listener during an emission\<close>








subsection \<open>The invariant of hasListeners\<close>
















subsection \<open>The bind helpers agree with their generic forms\<close>














end
